theory Spec2Isabelle
  imports Main "HOL-Library.Sublist"
begin

section \<open>Python strings and the library operations used by the script\<close>

text \<open>
  A Python \<open>str\<close> is a sequence of Unicode code points; a code point is modelled as a
  natural number and a string as a list of them. \<open>str\<close> turns a literal into such a list.
\<close>

type_synonym pystr = "nat list"

definition str :: "string \<Rightarrow> pystr" where
  "str s = map of_char s"

text \<open>
  The character class of the first substitution of \<open>clean_text\<close>:
  \<^verbatim>\<open>[\x00-\x08\x0b\x0c\x0e-\x1f\x7f-\x9f]\<close>.
\<close>

definition is_ctrl :: "nat \<Rightarrow> bool" where
  "is_ctrl c \<longleftrightarrow>
     c \<le> 8 \<or> c = 11 \<or> c = 12 \<or> (14 \<le> c \<and> c \<le> 31) \<or> (127 \<le> c \<and> c \<le> 159)"

text \<open>
  The whitespace of Python 3 on \<open>str\<close>: the class \<^verbatim>\<open>\s\<close> of \<open>re\<close> and the characters
  removed by \<open>str.strip()\<close> are the same set (the code points for which \<open>str.isspace\<close>
  holds): U+0009..U+000D, U+001C..U+001F, U+0020, U+0085, U+00A0, U+1680,
  U+2000..U+200A, U+2028, U+2029, U+202F, U+205F, U+3000.
\<close>

definition is_space :: "nat \<Rightarrow> bool" where
  "is_space c \<longleftrightarrow>
     (9 \<le> c \<and> c \<le> 13) \<or> (28 \<le> c \<and> c \<le> 31) \<or> c = 32 \<or> c = 133 \<or> c = 160 \<or>
     c = 5760 \<or> (8192 \<le> c \<and> c \<le> 8202) \<or> c = 8232 \<or> c = 8233 \<or> c = 8239 \<or>
     c = 8287 \<or> c = 12288"

text \<open>\<open>s.strip()\<close>: leading and trailing whitespace removed.\<close>

definition py_strip :: "pystr \<Rightarrow> pystr" where
  "py_strip s = rev (dropWhile is_space (rev (dropWhile is_space s)))"

text \<open>
  \<open>s.rfind(c)\<close> for a single character: the highest index at which \<open>c\<close> occurs,
  \<open>-1\<close> when it does not occur.
\<close>

definition rfind :: "pystr \<Rightarrow> nat \<Rightarrow> int" where
  "rfind s c =
     (if c \<in> set s then int (length s) - 1 - int (length (takeWhile (\<lambda>x. x \<noteq> c) (rev s)))
      else - 1)"

text \<open>
  \<open>xs[a:b]\<close> with Python's rules: a negative index counts from the end, and both indices
  are clamped to the sequence; an empty range gives the empty sequence.
\<close>

definition py_slice :: "'a list \<Rightarrow> int \<Rightarrow> int \<Rightarrow> 'a list" where
  "py_slice xs a b =
     (let n = int (length xs);
          lo = (if a < 0 then max (a + n) 0 else min a n);
          hi = (if b < 0 then max (b + n) 0 else min b n)
      in take (nat (hi - lo)) (drop (nat lo) xs))"

text \<open>\<open>range(k)\<close>: empty when \<open>k \<le> 0\<close>.\<close>

definition py_range :: "int \<Rightarrow> int list" where
  "py_range k = map int [0..<nat k]"

section \<open>clean_text\<close>

text \<open>\<^verbatim>\<open>re.sub(r'[\x00-\x08\x0b\x0c\x0e-\x1f\x7f-\x9f]', '', text)\<close>\<close>

definition remove_ctrl :: "pystr \<Rightarrow> pystr" where
  "remove_ctrl s = filter (\<lambda>c. \<not> is_ctrl c) s"

text \<open>
  \<^verbatim>\<open>re.sub(r'\s+', ' ', text)\<close>: every maximal run of whitespace is replaced by one
  space (code point 32).
\<close>

function normalize_spaces :: "pystr \<Rightarrow> pystr" where
  "normalize_spaces [] = []"
| "normalize_spaces (c # cs) =
     (if is_space c then 32 # normalize_spaces (dropWhile is_space cs)
      else c # normalize_spaces cs)"
  by pat_completeness auto
termination
  by (relation "measure length") (auto simp: less_Suc_eq_le length_dropWhile_le)

text \<open>
  \<^verbatim>\<open>re.sub(r'\n\s*\n', '\n\n', text)\<close>. A match starts at a newline (code point 10);
  the greedy \<^verbatim>\<open>\s*\<close> takes the whole whitespace run after it and backtracks to the
  last newline of that run, where the match ends. Without a newline in the run there is
  no match at this position and the character is copied.
\<close>

function collapse_blank_lines :: "pystr \<Rightarrow> pystr" where
  "collapse_blank_lines [] = []"
| "collapse_blank_lines (c # cs) =
     (if c = 10 then
        (let j = rfind (takeWhile is_space cs) 10
         in if 0 \<le> j then 10 # 10 # collapse_blank_lines (drop (nat j + 1) cs)
            else c # collapse_blank_lines cs)
      else c # collapse_blank_lines cs)"
  by pat_completeness auto
termination
  by (relation "measure length") auto

definition clean_text :: "pystr \<Rightarrow> pystr" where
  "clean_text t = py_strip (collapse_blank_lines (normalize_spaces (remove_ctrl t)))"

text \<open>
  The shape of a whitespace-normalised string: every whitespace character is a space
  and no two whitespace characters are adjacent.
\<close>

definition wsnorm :: "pystr \<Rightarrow> bool" where
  "wsnorm s \<longleftrightarrow> (\<forall>c\<in>set s. is_space c \<longrightarrow> c = 32) \<and>
     successively (\<lambda>x y. \<not> (is_space x \<and> is_space y)) s"

section \<open>create_chunks\<close>

record page_data =
  page_num :: int
  page_text :: pystr

text \<open>
  A chunk dictionary: \<open>id\<close>, \<open>page\<close>, \<open>text\<close>, and \<open>source\<close>, a key that only \<open>main\<close>
  adds (absent, \<open>None\<close>, in what \<open>create_chunks\<close> returns). The id is a counter that
  starts at 0 and is only ever incremented, hence a natural number.
\<close>

record chunk =
  chunk_id :: nat
  chunk_page :: int
  chunk_text :: pystr
  chunk_source :: "pystr option"

text \<open>
  The candidate window of one iteration of the \<open>while\<close> loop, on a page whose cleaned
  text is \<open>txt\<close>: the pair \<open>(chunk_text, end)\<close> as it stands before the emission test.
  The test \<^verbatim>\<open>break_point > chunk_size * 0.5\<close> compares an integer with a float that
  is exact for every chunk size below \<open>2^53\<close>, and is written
  \<open>chunk_size < 2 * break_point\<close>. Code point 46 is the period, 10 the newline.
\<close>

definition chunk_window :: "int \<Rightarrow> pystr \<Rightarrow> int \<Rightarrow> pystr \<times> int" where
  "chunk_window chunk_size txt start =
     (let endp = start + chunk_size;
          chunk_text = py_slice txt start endp
      in if endp < int (length txt) then
           (let last_period = rfind chunk_text 46;
                last_newline = rfind chunk_text 10;
                break_point = max last_period last_newline
            in if chunk_size < 2 * break_point
               then (py_slice chunk_text 0 (break_point + 1), start + break_point + 1)
               else (chunk_text, endp))
         else (chunk_text, endp))"

text \<open>
  One iteration of the loop on the state \<open>(start, chunk_id, chunks)\<close>: the window, the
  emission of its stripped text when that is not empty, and the next \<open>start\<close>.
\<close>

definition chunk_step ::
  "int \<Rightarrow> int \<Rightarrow> pystr \<Rightarrow> int \<Rightarrow> int \<times> nat \<times> chunk list \<Rightarrow> int \<times> nat \<times> chunk list" where
  "chunk_step chunk_size overlap txt pnum st =
     (case st of (start, cid, chunks) \<Rightarrow>
        (case chunk_window chunk_size txt start of (ctext, endp) \<Rightarrow>
           (if endp < int (length txt) then endp - overlap else int (length txt),
            if py_strip ctext \<noteq> [] then cid + 1 else cid,
            if py_strip ctext \<noteq> []
            then chunks @ [\<lparr>chunk_id = cid, chunk_page = pnum, chunk_text = py_strip ctext,
                             chunk_source = None\<rparr>]
            else chunks)))"

text \<open>
  The \<open>while start < len(text)\<close> loop. It need not terminate: \<open>None\<close> is the run that
  never leaves the loop.
\<close>

partial_function (option) page_loop ::
  "int \<Rightarrow> int \<Rightarrow> pystr \<Rightarrow> int \<Rightarrow> int \<times> nat \<times> chunk list \<Rightarrow> (nat \<times> chunk list) option" where
  "page_loop chunk_size overlap txt pnum st =
     (if fst st < int (length txt)
      then page_loop chunk_size overlap txt pnum (chunk_step chunk_size overlap txt pnum st)
      else Some (snd st))"

text \<open>The body of the \<open>for page_data in pages\<close> loop, on the state \<open>(chunk_id, chunks)\<close>.\<close>

definition chunk_page_data ::
  "int \<Rightarrow> int \<Rightarrow> page_data \<Rightarrow> nat \<times> chunk list \<Rightarrow> (nat \<times> chunk list) option" where
  "chunk_page_data chunk_size overlap pd acc =
     (let txt = clean_text (page_text pd)
      in if txt = [] then Some acc
         else page_loop chunk_size overlap txt (page_num pd) (0, fst acc, snd acc))"

fun pages_loop ::
  "int \<Rightarrow> int \<Rightarrow> page_data list \<Rightarrow> nat \<times> chunk list \<Rightarrow> (nat \<times> chunk list) option" where
  "pages_loop chunk_size overlap [] acc = Some acc"
| "pages_loop chunk_size overlap (pd # pds) acc =
     (case chunk_page_data chunk_size overlap pd acc of
        None \<Rightarrow> None
      | Some acc' \<Rightarrow> pages_loop chunk_size overlap pds acc')"

definition create_chunks :: "page_data list \<Rightarrow> int \<Rightarrow> int \<Rightarrow> chunk list option" where
  "create_chunks pages chunk_size overlap =
     map_option snd (pages_loop chunk_size overlap pages (0, []))"

text \<open>
  What the loop guarantees of a chunk emitted on page \<open>pnum\<close> with cleaned text \<open>t\<close>,
  and the way the loops extend the state \<open>(chunk_id, chunks)\<close>: new chunks are appended,
  numbered consecutively from the old counter.
\<close>

definition emitted :: "int \<Rightarrow> pystr \<Rightarrow> int \<Rightarrow> chunk \<Rightarrow> bool" where
  "emitted chunk_size t pnum c \<longleftrightarrow>
     chunk_page c = pnum \<and> chunk_source c = None \<and> chunk_text c \<noteq> [] \<and>
     sublist (chunk_text c) t \<and> (0 \<le> chunk_size \<longrightarrow> int (length (chunk_text c)) \<le> chunk_size)"

definition extends :: "(chunk \<Rightarrow> bool) \<Rightarrow> nat \<times> chunk list \<Rightarrow> nat \<times> chunk list \<Rightarrow> bool" where
  "extends Q acc r \<longleftrightarrow>
     (\<exists>new. r = (fst acc + length new, snd acc @ new) \<and>
        map chunk_id new = [fst acc..<fst acc + length new] \<and> (\<forall>c\<in>set new. Q c))"

declare page_loop.simps [code]

section \<open>main: extraction, id reassignment, accumulation\<close>

definition CHUNK_SIZE :: int where "CHUNK_SIZE = 500"
definition CHUNK_OVERLAP :: int where "CHUNK_OVERLAP = 100"
definition CHUNKS_PER_FILE :: int where "CHUNKS_PER_FILE = 100"

text \<open>
  \<open>extract_text_pypdf2\<close> and \<open>extract_text_pdfplumber\<close> build the same list: the PDF
  library yields the raw text of each page (\<open>""\<close> where it yields nothing), and page
  \<open>i\<close> of the enumeration becomes \<^verbatim>\<open>{"page": i + 1, "text": text.strip()}\<close>. The
  argument is the list of raw page texts.
\<close>

definition extract_text :: "pystr list \<Rightarrow> page_data list" where
  "extract_text raw =
     map (\<lambda>(i, t). \<lparr>page_num = int i + 1, page_text = py_strip t\<rparr>) (enumerate 0 raw)"

text \<open>A PDF file of the source directory: its file name and the raw text of its pages.\<close>

record pdf_file =
  pdf_name :: pystr
  pdf_pages :: "pystr list"

text \<open>
  The \<open>for chunk in chunks\<close> pass of \<open>main\<close>: every chunk of the current PDF gets
  \<open>len(all_chunks) + id\<close> as id and the file name as source; \<open>all_chunks\<close> is extended
  only after the pass.
\<close>

definition reassign :: "chunk list \<Rightarrow> pystr \<Rightarrow> chunk list \<Rightarrow> chunk list" where
  "reassign all_chunks name chunks =
     map (\<lambda>c. c\<lparr>chunk_id := length all_chunks + chunk_id c, chunk_source := Some name\<rparr>) chunks"

text \<open>
  The \<open>for pdf_path in pdf_files\<close> loop of \<open>main\<close> on the state
  \<open>(all_chunks, all_pages)\<close>, with the configured size and overlap.
\<close>

fun main_loop ::
  "pdf_file list \<Rightarrow> chunk list \<times> page_data list \<Rightarrow> (chunk list \<times> page_data list) option" where
  "main_loop [] acc = Some acc"
| "main_loop (pdf # pdfs) acc =
     (let pages = extract_text (pdf_pages pdf)
      in case create_chunks pages CHUNK_SIZE CHUNK_OVERLAP of
           None \<Rightarrow> None
         | Some chunks \<Rightarrow>
             main_loop pdfs
               (fst acc @ reassign (fst acc) (pdf_name pdf) chunks, snd acc @ pages))"

definition main_chunks :: "pdf_file list \<Rightarrow> chunk list option" where
  "main_chunks pdfs = map_option fst (main_loop pdfs ([], []))"

section \<open>save_chunks\<close>

datatype error = ZeroDivisionError

text \<open>
  \<open>save_chunks\<close> unlinks every old \<^verbatim>\<open>chunks_*.json\<close> and then writes one file per
  batch. The result is the list of the batches written, element \<open>i\<close> being the content
  of \<^verbatim>\<open>chunks_i.json\<close>, with the returned \<open>num_files\<close>. Floor division by a zero batch
  size raises.
\<close>

definition save_chunks :: "'a list \<Rightarrow> int \<Rightarrow> error + ('a list list \<times> int)" where
  "save_chunks chunks chunks_per_file =
     (if chunks_per_file = 0 then Inl ZeroDivisionError
      else
        let n = int (length chunks);
            num_files = (n + chunks_per_file - 1) div chunks_per_file
        in Inr (map (\<lambda>i. py_slice chunks (i * chunks_per_file)
                             (min ((i + 1) * chunks_per_file) n))
                    (py_range num_files),
                num_files))"

section \<open>Concrete inputs\<close>

text \<open>The page text of the scenario of the specification (43 characters).\<close>

definition sample :: pystr where
  "sample = str ''Sentence one. Sentence two. Sentence three.''"

text \<open>A page text on which size 6 and overlap 5 make no progress.\<close>

definition stuck :: pystr where
  "stuck = str ''aaaa.aaaaaaa''"

text \<open>Batch \<open>i\<close> of a list cut into pieces of \<open>b\<close> elements.\<close>

definition batch :: "'a list \<Rightarrow> nat \<Rightarrow> nat \<Rightarrow> 'a list" where
  "batch xs b i = drop (i * b) (take ((i + 1) * b) xs)"

section \<open>Properties of the string operations and of clean_text\<close>

lemma is_space_10: "is_space 10" by (simp add: is_space_def)
lemma is_space_32: "is_space 32" by (simp add: is_space_def)
lemma not_ctrl_32: "\<not> is_ctrl 32" by (simp add: is_ctrl_def)

lemma set_normalize_spaces: "set (normalize_spaces s) \<subseteq> insert 32 (set s)"
proof (induction s rule: normalize_spaces.induct)
  case 1
  show ?case by simp
next
  case (2 c cs)
  show ?case
  proof (cases "is_space c")
    case True
    with 2 have "set (normalize_spaces (dropWhile is_space cs)) \<subseteq> insert 32 (set (dropWhile is_space cs))"
      by simp
    moreover have "set (dropWhile is_space cs) \<subseteq> set cs"
      by (meson set_dropWhileD subsetI)
    ultimately show ?thesis using True by auto
  next
    case False
    with 2 show ?thesis by auto
  qed
qed

lemma normalize_spaces_space:
  "c \<in> set (normalize_spaces s) \<Longrightarrow> is_space c \<Longrightarrow> c = 32"
proof (induction s rule: normalize_spaces.induct)
  case 1
  then show ?case by simp
next
  case (2 d cs)
  then show ?case by (cases "is_space d") auto
qed

lemma normalize_spaces_hd:
  "normalize_spaces s \<noteq> [] \<Longrightarrow> is_space (hd (normalize_spaces s)) \<Longrightarrow> s \<noteq> [] \<and> is_space (hd s)"
  by (cases s) (auto split: if_splits)

lemma normalize_spaces_successively:
  "successively (\<lambda>x y. \<not> (is_space x \<and> is_space y)) (normalize_spaces s)"
proof (induction s rule: normalize_spaces.induct)
  case 1
  show ?case by simp
next
  case (2 c cs)
  show ?case
  proof (cases "is_space c")
    case True
    let ?d = "dropWhile is_space cs"
    have ih: "successively (\<lambda>x y. \<not> (is_space x \<and> is_space y)) (normalize_spaces ?d)"
      using 2 True by simp
    have "normalize_spaces ?d \<noteq> [] \<Longrightarrow> \<not> is_space (hd (normalize_spaces ?d))"
    proof
      assume a: "normalize_spaces ?d \<noteq> []" and b: "is_space (hd (normalize_spaces ?d))"
      then have "?d \<noteq> [] \<and> is_space (hd ?d)" by (rule normalize_spaces_hd)
      then show False using hd_dropWhile by blast
    qed
    with ih show ?thesis using True
      by (cases "normalize_spaces ?d") (auto simp: successively_Cons)
  next
    case False
    with 2 show ?thesis
      by (cases "normalize_spaces cs") (auto simp: successively_Cons)
  qed
qed


lemma wsnorm_normalize_spaces: "wsnorm (normalize_spaces s)"
  unfolding wsnorm_def using normalize_spaces_space normalize_spaces_successively by blast

lemma wsnorm_fixed: "wsnorm s \<Longrightarrow> normalize_spaces s = s"
proof (induction s rule: normalize_spaces.induct)
  case 1
  show ?case by simp
next
  case (2 c cs)
  have tl: "wsnorm cs" using "2.prems" by (cases cs) (auto simp: wsnorm_def)
  show ?case
  proof (cases "is_space c")
    case True
    then have c: "c = 32" using "2.prems" by (simp add: wsnorm_def)
    have "cs \<noteq> [] \<Longrightarrow> \<not> is_space (hd cs)"
      using "2.prems" True by (cases cs) (auto simp: wsnorm_def)
    then have d: "dropWhile is_space cs = cs" by (cases cs) auto
    with 2 True tl c show ?thesis by simp
  next
    case False
    with 2 tl show ?thesis by simp
  qed
qed

lemma wsnorm_dropWhile: "wsnorm s \<Longrightarrow> wsnorm (dropWhile P s)"
proof -
  assume a: "wsnorm s"
  have "s = takeWhile P s @ dropWhile P s" by simp
  then have "successively (\<lambda>x y. \<not> (is_space x \<and> is_space y)) (takeWhile P s @ dropWhile P s)"
    using a by (simp add: wsnorm_def)
  then have "successively (\<lambda>x y. \<not> (is_space x \<and> is_space y)) (dropWhile P s)"
    unfolding successively_append_iff by blast
  moreover have "set (dropWhile P s) \<subseteq> set s" by (meson set_dropWhileD subsetI)
  ultimately show ?thesis using a unfolding wsnorm_def by blast
qed

lemma wsnorm_rev: "wsnorm s \<Longrightarrow> wsnorm (rev s)"
proof -
  assume a: "wsnorm s"
  then have "successively (\<lambda>x y. \<not> (is_space x \<and> is_space y)) s" by (simp add: wsnorm_def)
  then have "successively (\<lambda>x y. \<not> (is_space y \<and> is_space x)) s"
    by (rule successively_mono) blast
  then have "successively (\<lambda>x y. \<not> (is_space x \<and> is_space y)) (rev s)"
    unfolding successively_rev .
  then show ?thesis using a unfolding wsnorm_def by simp
qed

lemma wsnorm_py_strip: "wsnorm s \<Longrightarrow> wsnorm (py_strip s)"
  unfolding py_strip_def by (intro wsnorm_rev wsnorm_dropWhile)

lemma set_py_strip: "set (py_strip s) \<subseteq> set s"
proof -
  have "set (dropWhile is_space (rev (dropWhile is_space s))) \<subseteq> set (rev (dropWhile is_space s))"
    by (meson set_dropWhileD subsetI)
  moreover have "set (dropWhile is_space s) \<subseteq> set s" by (meson set_dropWhileD subsetI)
  ultimately show ?thesis by (auto simp: py_strip_def)
qed

lemma collapse_blank_lines_id: "10 \<notin> set s \<Longrightarrow> collapse_blank_lines s = s"
  by (induction s rule: collapse_blank_lines.induct) auto

lemma no_newline_normalize_spaces: "10 \<notin> set (normalize_spaces s)"
  using normalize_spaces_space [of 10 s] is_space_10 by auto

lemma clean_text_eq: "clean_text t = py_strip (normalize_spaces (remove_ctrl t))"
  by (simp add: clean_text_def collapse_blank_lines_id no_newline_normalize_spaces)

lemma no_newline_clean_text: "10 \<notin> set (clean_text t)"
  using set_py_strip [of "normalize_spaces (remove_ctrl t)"] no_newline_normalize_spaces [of "remove_ctrl t"]
  by (auto simp: clean_text_eq)

lemma strip_ends: "py_strip s \<noteq> [] \<Longrightarrow> \<not> is_space (hd (py_strip s)) \<and> \<not> is_space (last (py_strip s))"
proof -
  assume ne: "py_strip s \<noteq> []"
  let ?d = "dropWhile is_space s"
  let ?e = "dropWhile is_space (rev ?d)"
  have e: "?e \<noteq> []" using ne by (simp add: py_strip_def)
  have l: "\<not> is_space (hd ?e)" using e hd_dropWhile by blast
  have "last (py_strip s) = hd ?e" using e by (simp add: py_strip_def last_rev)
  with l have 1: "\<not> is_space (last (py_strip s))" by simp
  have d: "?d \<noteq> []" using e by (metis dropWhile.simps(1) rev.simps(1))
  have hdd: "\<not> is_space (hd ?d)" using d hd_dropWhile by blast
  have "rev ?d = takeWhile is_space (rev ?d) @ ?e" by simp
  then have "?d = rev ?e @ rev (takeWhile is_space (rev ?d))"
    by (metis rev_append rev_rev_ident)
  then have "hd ?d = hd (rev ?e)" using e by (metis hd_append2 rev_is_Nil_conv)
  with hdd have "\<not> is_space (hd (py_strip s))" by (simp add: py_strip_def)
  with 1 show ?thesis by simp
qed

lemma dropWhile_hd: "xs \<noteq> [] \<Longrightarrow> \<not> P (hd xs) \<Longrightarrow> dropWhile P xs = xs"
  by (cases xs) auto

lemma py_strip_fixed:
  assumes "s \<noteq> [] \<Longrightarrow> \<not> is_space (hd s) \<and> \<not> is_space (last s)"
  shows "py_strip s = s"
proof (cases "s = []")
  case True
  then show ?thesis by (simp add: py_strip_def)
next
  case False
  with assms have h: "\<not> is_space (hd s)" and l: "\<not> is_space (last s)" by auto
  have 1: "dropWhile is_space s = s" using False h by (rule dropWhile_hd)
  have "hd (rev s) = last s" using False by (simp add: hd_rev)
  with l have "\<not> is_space (hd (rev s))" by simp
  moreover have "rev s \<noteq> []" using False by simp
  ultimately have 2: "dropWhile is_space (rev s) = rev s" by (intro dropWhile_hd)
  show ?thesis by (simp add: py_strip_def 1 2)
qed

lemma py_strip_idem: "py_strip (py_strip s) = py_strip s"
  by (rule py_strip_fixed) (rule strip_ends)

lemma no_ctrl_clean_text: "c \<in> set (clean_text t) \<Longrightarrow> \<not> is_ctrl c"
proof -
  assume "c \<in> set (clean_text t)"
  then have "c \<in> set (normalize_spaces (remove_ctrl t))"
    using set_py_strip by (auto simp: clean_text_eq)
  then have "c = 32 \<or> c \<in> set (remove_ctrl t)" using set_normalize_spaces by auto
  then show ?thesis using not_ctrl_32 by (auto simp: remove_ctrl_def)
qed

lemma remove_ctrl_clean_text: "remove_ctrl (clean_text t) = clean_text t"
  unfolding remove_ctrl_def using no_ctrl_clean_text by (simp add: filter_id_conv)

lemma wsnorm_clean_text: "wsnorm (clean_text t)"
  by (simp add: clean_text_eq wsnorm_py_strip wsnorm_normalize_spaces)

lemma clean_text_idem: "clean_text (clean_text t) = clean_text t"
proof -
  have "clean_text (clean_text t) = py_strip (normalize_spaces (remove_ctrl (clean_text t)))"
    by (rule clean_text_eq)
  also have "\<dots> = py_strip (clean_text t)"
    by (simp add: remove_ctrl_clean_text wsnorm_fixed wsnorm_clean_text)
  also have "\<dots> = clean_text t" by (simp add: clean_text_eq py_strip_idem)
  finally show ?thesis .
qed

lemma set_py_slice: "set (py_slice xs a b) \<subseteq> set xs"
proof -
  have "set (take k (drop j xs)) \<subseteq> set xs" for k j
    by (meson set_drop_subset set_take_subset subset_trans)
  then show ?thesis by (simp add: py_slice_def Let_def)
qed

lemma rfind_absent: "c \<notin> set s \<Longrightarrow> rfind s c = - 1"
  by (simp add: rfind_def)

section \<open>Properties of the chunking loop\<close>

lemma sublist_py_slice: "sublist (py_slice xs a b) xs"
proof -
  have "sublist (take k (drop j xs)) xs" for k j
    using sublist_take sublist_drop sublist_order.order_trans by blast
  then show ?thesis by (simp add: py_slice_def Let_def)
qed

lemma length_py_slice: "a \<le> b \<Longrightarrow> int (length (py_slice xs a b)) \<le> b - a"
  by (simp add: py_slice_def Let_def) arith

lemma sublist_py_strip: "sublist (py_strip s) s"
proof -
  let ?d = "dropWhile is_space s"
  have "sublist (dropWhile is_space (rev ?d)) (rev ?d)" by (rule sublist_dropWhile)
  then have "sublist (py_strip s) ?d" by (simp add: py_strip_def sublist_rev_left)
  moreover have "sublist ?d s" by (rule sublist_dropWhile)
  ultimately show ?thesis by (rule sublist_order.order_trans)
qed

lemma rfind_less: "rfind s c < int (length s)"
  by (simp add: rfind_def)

lemma sublist_chunk_window: "sublist (fst (chunk_window S t start)) t"
proof -
  have "sublist (py_slice (py_slice t start e) 0 k) t" for e k
    by (rule sublist_order.order_trans [OF sublist_py_slice sublist_py_slice])
  then show ?thesis by (simp add: chunk_window_def Let_def sublist_py_slice)
qed

lemma length_chunk_window:
  assumes "0 \<le> S"
  shows "int (length (fst (chunk_window S t start))) \<le> S"
proof -
  let ?w = "py_slice t start (start + S)"
  have w: "int (length ?w) \<le> S" using length_py_slice [of start "start + S" t] assms by simp
  have "int (length (py_slice ?w 0 k)) \<le> S" for k
    using w sublist_length_le [OF sublist_py_slice, of ?w 0 k] by linarith
  with w show ?thesis by (simp add: chunk_window_def Let_def)
qed

lemma chunk_window_snd:
  "snd (chunk_window S t start) = start + S \<or>
   (\<exists>bp. S < 2 * bp \<and> snd (chunk_window S t start) = start + bp + 1)"
  by (simp add: chunk_window_def Let_def)

lemma chunk_window_progress:
  assumes "ov < S" "ov \<le> S div 2 + 1"
  shows "start + ov < snd (chunk_window S t start)"
proof -
  from chunk_window_snd [of S t start] show ?thesis
  proof
    assume "snd (chunk_window S t start) = start + S"
    with assms show ?thesis by simp
  next
    assume "\<exists>bp. S < 2 * bp \<and> snd (chunk_window S t start) = start + bp + 1"
    then obtain bp where "S < 2 * bp" "snd (chunk_window S t start) = start + bp + 1" by blast
    with assms show ?thesis by linarith
  qed
qed

lemma chunk_step_fst:
  "fst (chunk_step S ov t p st) =
     (if snd (chunk_window S t (fst st)) < int (length t)
      then snd (chunk_window S t (fst st)) - ov else int (length t))"
  by (simp add: chunk_step_def split: prod.splits)

lemma chunk_step_snd:
  "snd (chunk_step S ov t p st) =
     (if py_strip (fst (chunk_window S t (fst st))) \<noteq> []
      then (fst (snd st) + 1,
            snd (snd st) @ [\<lparr>chunk_id = fst (snd st), chunk_page = p,
               chunk_text = py_strip (fst (chunk_window S t (fst st))), chunk_source = None\<rparr>])
      else snd st)"
  by (simp add: chunk_step_def split: prod.splits)

lemma chunk_step_progress:
  assumes "ov < S" "ov \<le> S div 2 + 1" "fst st < int (length t)"
  shows "fst st < fst (chunk_step S ov t p st)"
  using chunk_window_progress [OF assms(1,2), of "fst st" "t"] assms(3)
  by (simp add: chunk_step_fst)

lemma page_loop_terminates:
  assumes "ov < S" "ov \<le> S div 2 + 1"
  shows "\<exists>r. page_loop S ov t p st = Some r"
proof (induction "nat (int (length t) - fst st)" arbitrary: st rule: less_induct)
  case less
  show ?case
  proof (cases "fst st < int (length t)")
    case True
    let ?st' = "chunk_step S ov t p st"
    have "fst st < fst ?st'" using assms True by (rule chunk_step_progress)
    then have "nat (int (length t) - fst ?st') < nat (int (length t) - fst st)"
      using True by linarith
    then obtain r where "page_loop S ov t p ?st' = Some r" using less by blast
    then show ?thesis using True by (subst page_loop.simps) simp
  next
    case False
    then show ?thesis by (subst page_loop.simps) simp
  qed
qed

lemma page_loop_invariant:
  assumes "page_loop S ov t p st = Some r"
    and "J (snd st)"
    and "\<And>s. J (snd s) \<Longrightarrow> J (snd (chunk_step S ov t p s))"
  shows "J r"
proof -
  have main: "(\<forall>s. J (snd s) \<longrightarrow> J (snd (chunk_step S ov t p s))) \<longrightarrow> J (snd st) \<longrightarrow> J r"
  proof (rule page_loop.raw_induct [where P = "\<lambda>S' ov' t' p' st' r'.
      (\<forall>s. J (snd s) \<longrightarrow> J (snd (chunk_step S' ov' t' p' s))) \<longrightarrow> J (snd st') \<longrightarrow> J r'",
      OF _ assms(1)])
    fix f :: "int \<Rightarrow> int \<Rightarrow> pystr \<Rightarrow> int \<Rightarrow> int \<times> nat \<times> chunk list \<Rightarrow> (nat \<times> chunk list) option"
      and S' ov' t' p' st' r'
    assume ih: "\<And>S ov t p st y. f S ov t p st = Some y \<Longrightarrow>
      (\<forall>s. J (snd s) \<longrightarrow> J (snd (chunk_step S ov t p s))) \<longrightarrow> J (snd st) \<longrightarrow> J y"
    assume eq: "(if fst st' < int (length t') then f S' ov' t' p' (chunk_step S' ov' t' p' st')
                 else Some (snd st')) = Some r'"
    show "(\<forall>s. J (snd s) \<longrightarrow> J (snd (chunk_step S' ov' t' p' s))) \<longrightarrow> J (snd st') \<longrightarrow> J r'"
    proof (intro impI)
      assume step: "\<forall>s. J (snd s) \<longrightarrow> J (snd (chunk_step S' ov' t' p' s))"
      assume j: "J (snd st')"
      show "J r'"
      proof (cases "fst st' < int (length t')")
        case True
        with eq have "f S' ov' t' p' (chunk_step S' ov' t' p' st') = Some r'" by simp
        then have "(\<forall>s. J (snd s) \<longrightarrow> J (snd (chunk_step S' ov' t' p' s))) \<longrightarrow>
            J (snd (chunk_step S' ov' t' p' st')) \<longrightarrow> J r'"
          by (rule ih)
        from this step have k: "J (snd (chunk_step S' ov' t' p' st')) \<longrightarrow> J r'" by (rule mp)
        from step have "J (snd st') \<longrightarrow> J (snd (chunk_step S' ov' t' p' st'))" by (rule spec)
        from this j have "J (snd (chunk_step S' ov' t' p' st'))" by (rule mp)
        with k show ?thesis by (rule mp)
      next
        case False
        with eq have "snd st' = r'" by simp
        with j show ?thesis by simp
      qed
    qed
  qed
  have step: "\<forall>s. J (snd s) \<longrightarrow> J (snd (chunk_step S ov t p s))"
    by (intro allI impI) (rule assms(3))
  from main step have "J (snd st) \<longrightarrow> J r" by (rule mp)
  from this assms(2) show ?thesis by (rule mp)
qed

lemma emitted_step:
  "py_strip (fst (chunk_window S t start)) \<noteq> [] \<Longrightarrow>
   emitted S t p \<lparr>chunk_id = i, chunk_page = p,
      chunk_text = py_strip (fst (chunk_window S t start)), chunk_source = None\<rparr>"
proof -
  let ?w = "fst (chunk_window S t start)"
  assume ne: "py_strip ?w \<noteq> []"
  have 1: "sublist (py_strip ?w) t"
    by (rule sublist_order.order_trans [OF sublist_py_strip sublist_chunk_window])
  have "length (py_strip ?w) \<le> length ?w" by (rule sublist_length_le [OF sublist_py_strip])
  then have 2: "0 \<le> S \<Longrightarrow> int (length (py_strip ?w)) \<le> S"
    using length_chunk_window [of S "t" start] by linarith
  show ?thesis using ne 1 2 by (simp add: emitted_def)
qed

lemma extends_refl: "extends Q acc acc"
  unfolding extends_def by (intro exI [of _ "[]"]) simp

lemma extends_snoc:
  assumes "extends Q acc r" "Q c" "chunk_id c = fst r"
  shows "extends Q acc (fst r + 1, snd r @ [c])"
proof -
  from assms(1) obtain new where n: "r = (fst acc + length new, snd acc @ new)"
    "map chunk_id new = [fst acc..<fst acc + length new]" "\<forall>c\<in>set new. Q c"
    unfolding extends_def by blast
  have "map chunk_id (new @ [c]) = [fst acc..<fst acc + length (new @ [c])]"
    using n assms(3) by simp
  moreover have "(fst r + 1, snd r @ [c]) = (fst acc + length (new @ [c]), snd acc @ (new @ [c]))"
    using n by simp
  moreover have "\<forall>x\<in>set (new @ [c]). Q x" using n assms(2) by simp
  ultimately show ?thesis unfolding extends_def by blast
qed

lemma extends_trans:
  assumes "extends Q acc r" "extends Q r r'"
  shows "extends Q acc r'"
proof -
  from assms(1) obtain new where n: "r = (fst acc + length new, snd acc @ new)"
    "map chunk_id new = [fst acc..<fst acc + length new]" "\<forall>c\<in>set new. Q c"
    unfolding extends_def by blast
  from assms(2) obtain new' where n': "r' = (fst r + length new', snd r @ new')"
    "map chunk_id new' = [fst r..<fst r + length new']" "\<forall>c\<in>set new'. Q c"
    unfolding extends_def by blast
  have "[fst acc..<fst acc + length new + length new'] =
        [fst acc..<fst acc + length new] @ [fst acc + length new..<fst acc + length new + length new']"
    by (metis le_add1 upt_add_eq_append)
  then have "map chunk_id (new @ new') = [fst acc..<fst acc + length (new @ new')]"
    using n n' by (simp add: add.assoc)
  moreover have "r' = (fst acc + length (new @ new'), snd acc @ (new @ new'))"
    using n n' by simp
  moreover have "\<forall>x\<in>set (new @ new'). Q x" using n n' by auto
  ultimately show ?thesis unfolding extends_def by blast
qed

lemma extends_mono:
  assumes "extends Q acc r" "\<And>c. Q c \<Longrightarrow> Q' c"
  shows "extends Q' acc r"
proof -
  from assms(1) obtain new where n: "r = (fst acc + length new, snd acc @ new)"
    "map chunk_id new = [fst acc..<fst acc + length new]" "\<forall>c\<in>set new. Q c"
    unfolding extends_def by blast
  from n(3) assms(2) have "\<forall>c\<in>set new. Q' c" by simp
  with n(1,2) show ?thesis unfolding extends_def by blast
qed

lemma page_loop_extends:
  assumes "page_loop S ov t p (start, acc) = Some r"
  shows "extends (emitted S t p) acc r"
proof (rule page_loop_invariant [OF assms, where J = "extends (emitted S t p) acc"])
  show "extends (emitted S t p) acc (snd (start, acc))" by (simp add: extends_refl)
next
  fix s :: "int \<times> nat \<times> chunk list"
  assume a: "extends (emitted S t p) acc (snd s)"
  show "extends (emitted S t p) acc (snd (chunk_step S ov t p s))"
  proof (cases "py_strip (fst (chunk_window S t (fst s))) \<noteq> []")
    case True
    then show ?thesis
      using extends_snoc [OF a emitted_step [OF True, of p "fst (snd s)"]]
      by (simp add: chunk_step_snd)
  next
    case False
    with a show ?thesis by (simp add: chunk_step_snd)
  qed
qed

lemma chunk_page_data_extends:
  assumes "chunk_page_data S ov pd acc = Some r"
  shows "extends (emitted S (clean_text (page_text pd)) (page_num pd)) acc r"
proof (cases "clean_text (page_text pd) = []")
  case True
  with assms have "r = acc" by (simp add: chunk_page_data_def)
  then show ?thesis by (simp add: extends_refl)
next
  case False
  with assms have "page_loop S ov (clean_text (page_text pd)) (page_num pd) (0, acc) = Some r"
    by (simp add: chunk_page_data_def)
  then show ?thesis by (rule page_loop_extends)
qed

lemma pages_loop_extends:
  "pages_loop S ov pages acc = Some r \<Longrightarrow>
   extends (\<lambda>c. \<exists>pd\<in>set pages. emitted S (clean_text (page_text pd)) (page_num pd) c) acc r"
proof (induction pages arbitrary: acc)
  case Nil
  then show ?case by (simp add: extends_refl)
next
  case (Cons pd pds)
  from Cons.prems obtain r1 where r1: "chunk_page_data S ov pd acc = Some r1"
    and r: "pages_loop S ov pds r1 = Some r"
    by (auto split: option.splits)
  let ?Q = "\<lambda>c. \<exists>pd\<in>set (pd # pds). emitted S (clean_text (page_text pd)) (page_num pd) c"
  have "extends ?Q acc r1"
    by (rule extends_mono [OF chunk_page_data_extends [OF r1]]) simp
  moreover have "extends ?Q r1 r"
    by (rule extends_mono [OF Cons.IH [OF r]]) auto
  ultimately show ?case by (rule extends_trans)
qed

lemma create_chunks_extends:
  assumes "create_chunks pages S ov = Some cs"
  shows "map chunk_id cs = [0..<length cs] \<and>
    (\<forall>c\<in>set cs. \<exists>pd\<in>set pages. emitted S (clean_text (page_text pd)) (page_num pd) c)"
proof -
  from assms obtain r where r: "pages_loop S ov pages (0, []) = Some r" and cs: "cs = snd r"
    by (auto simp: create_chunks_def)
  from pages_loop_extends [OF r] cs show ?thesis by (auto simp: extends_def)
qed

lemma sorted_const: "\<forall>x\<in>set xs. x = (p::int) \<Longrightarrow> sorted xs"
  by (induction xs) auto

lemma pages_loop_sorted:
  "pages_loop S ov pages acc = Some r \<Longrightarrow> sorted (map page_num pages) \<Longrightarrow>
   \<exists>new. snd r = snd acc @ new \<and> sorted (map chunk_page new) \<and>
     (\<forall>c\<in>set new. chunk_page c \<in> page_num ` set pages)"
proof (induction pages arbitrary: acc)
  case Nil
  then show ?case by simp
next
  case (Cons pd pds)
  from Cons.prems(1) obtain r1 where r1: "chunk_page_data S ov pd acc = Some r1"
    and r: "pages_loop S ov pds r1 = Some r"
    by (auto split: option.splits)
  from chunk_page_data_extends [OF r1] obtain n1 where n1: "snd r1 = snd acc @ n1"
    "\<forall>c\<in>set n1. chunk_page c = page_num pd"
    by (auto simp: extends_def emitted_def)
  from Cons.prems(2) have s: "sorted (map page_num pds)" and le: "\<forall>q\<in>set pds. page_num pd \<le> page_num q"
    by auto
  from Cons.IH [OF r s] obtain n2 where n2: "snd r = snd r1 @ n2" "sorted (map chunk_page n2)"
    "\<forall>c\<in>set n2. chunk_page c \<in> page_num ` set pds"
    by blast
  have 1: "sorted (map chunk_page n1)" using n1(2) by (intro sorted_const [of _ "page_num pd"]) auto
  have 2: "\<forall>x\<in>set n1. \<forall>y\<in>set n2. chunk_page x \<le> chunk_page y" using n1(2) n2(3) le by auto
  have "sorted (map chunk_page (n1 @ n2))" using 1 2 n2(2) by (simp add: sorted_append)
  moreover have "snd r = snd acc @ (n1 @ n2)" using n1 n2 by simp
  moreover have "\<forall>c\<in>set (n1 @ n2). chunk_page c \<in> page_num ` set (pd # pds)"
    using n1(2) n2(3) by auto
  ultimately show ?case by blast
qed

lemma pages_loop_terminates:
  assumes "ov < S" "ov \<le> S div 2 + 1"
  shows "\<exists>r. pages_loop S ov pages acc = Some r"
proof (induction pages arbitrary: acc)
  case Nil
  show ?case by simp
next
  case (Cons pd pds)
  have "\<exists>r1. chunk_page_data S ov pd acc = Some r1"
    using page_loop_terminates [OF assms] by (simp add: chunk_page_data_def Let_def)
  then obtain r1 where r1: "chunk_page_data S ov pd acc = Some r1" by blast
  from Cons [of r1] obtain r where "pages_loop S ov pds r1 = Some r" by blast
  with r1 show ?case by simp
qed

lemma create_chunks_terminates:
  assumes "ov < S" "ov \<le> S div 2 + 1"
  shows "\<exists>cs. create_chunks pages S ov = Some cs"
  using pages_loop_terminates [OF assms, of pages "(0, [])"] by (auto simp: create_chunks_def)

lemma py_slice_all: "int (length xs) \<le> b \<Longrightarrow> py_slice xs 0 b = xs"
  by (simp add: py_slice_def Let_def)

lemma chunk_window_short:
  "int (length t) \<le> S \<Longrightarrow> chunk_window S t 0 = (t, S)"
  by (simp add: chunk_window_def Let_def py_slice_all)

lemma short_page_loop:
  assumes "t \<noteq> []" "py_strip t = t" "int (length t) \<le> S"
  shows "page_loop S ov t p (0, cid, chunks) =
    Some (cid + 1, chunks @ [\<lparr>chunk_id = cid, chunk_page = p, chunk_text = t, chunk_source = None\<rparr>])"
proof -
  have w: "chunk_window S t 0 = (t, S)" using assms(3) by (rule chunk_window_short)
  have st: "chunk_step S ov t p (0, cid, chunks) =
    (int (length t), cid + 1,
     chunks @ [\<lparr>chunk_id = cid, chunk_page = p, chunk_text = t, chunk_source = None\<rparr>])"
    using assms by (simp add: chunk_step_def w)
  have "page_loop S ov t p (0, cid, chunks) = page_loop S ov t p (chunk_step S ov t p (0, cid, chunks))"
    using assms(1) by (subst page_loop.simps) simp
  also have "\<dots> = Some (cid + 1, chunks @ [\<lparr>chunk_id = cid, chunk_page = p, chunk_text = t, chunk_source = None\<rparr>])"
    unfolding st by (subst page_loop.simps) simp
  finally show ?thesis .
qed

lemma py_strip_clean_text: "py_strip (clean_text t) = clean_text t"
  by (simp add: clean_text_eq py_strip_idem)

lemma short_page_data:
  assumes "clean_text (page_text pd) \<noteq> []" "int (length (clean_text (page_text pd))) \<le> S"
  shows "chunk_page_data S ov pd (cid, chunks) =
    Some (cid + 1, chunks @ [\<lparr>chunk_id = cid, chunk_page = page_num pd,
       chunk_text = clean_text (page_text pd), chunk_source = None\<rparr>])"
  using assms short_page_loop [OF assms(1) py_strip_clean_text assms(2)]
  by (simp add: chunk_page_data_def)

section \<open>The loop on the concrete inputs\<close>

lemma sample_clean: "clean_text sample = sample"
  by (simp add: sample_def str_def clean_text_eq remove_ctrl_def is_ctrl_def is_space_def py_strip_def)

lemma sample_length: "int (length sample) = 43"
  by (simp add: sample_def str_def)

lemma sample_window_0: "chunk_window 20 sample 0 = (str ''Sentence one.'', 13)"
  by (simp add: sample_def str_def chunk_window_def py_slice_def rfind_def)

lemma sample_window_8: "chunk_window 20 sample 8 = (str '' one. Sentence two.'', 27)"
  by (simp add: sample_def str_def chunk_window_def py_slice_def rfind_def)

lemma sample_window_22: "chunk_window 20 sample 22 = (str '' two. Sentence three'', 42)"
  by (simp add: sample_def str_def chunk_window_def py_slice_def rfind_def)

lemma sample_window_37: "chunk_window 20 sample 37 = (str ''three.'', 57)"
  by (simp add: sample_def str_def chunk_window_def py_slice_def rfind_def)

lemma sample_strips:
  "py_strip (str ''Sentence one.'') = str ''Sentence one.''"
  "py_strip (str '' one. Sentence two.'') = str ''one. Sentence two.''"
  "py_strip (str '' two. Sentence three'') = str ''two. Sentence three''"
  "py_strip (str ''three.'') = str ''three.''"
  by (simp_all add: str_def py_strip_def is_space_def)

lemma sample_step_0:
  "chunk_step 20 5 sample pn (0, i, cs) =
     (8, i + 1, cs @ [\<lparr>chunk_id = i, chunk_page = pn, chunk_text = str ''Sentence one.'', chunk_source = None\<rparr>])"
  by (simp add: chunk_step_def sample_window_0 sample_strips sample_length) (simp add: str_def)

lemma sample_step_8:
  "chunk_step 20 5 sample pn (8, i, cs) =
     (22, i + 1, cs @ [\<lparr>chunk_id = i, chunk_page = pn, chunk_text = str ''one. Sentence two.'', chunk_source = None\<rparr>])"
  by (simp add: chunk_step_def sample_window_8 sample_strips sample_length) (simp add: str_def)

lemma sample_step_22:
  "chunk_step 20 5 sample pn (22, i, cs) =
     (37, i + 1, cs @ [\<lparr>chunk_id = i, chunk_page = pn, chunk_text = str ''two. Sentence three'', chunk_source = None\<rparr>])"
  by (simp add: chunk_step_def sample_window_22 sample_strips sample_length) (simp add: str_def)

lemma sample_step_37:
  "chunk_step 20 5 sample pn (37, i, cs) =
     (43, i + 1, cs @ [\<lparr>chunk_id = i, chunk_page = pn, chunk_text = str ''three.'', chunk_source = None\<rparr>])"
  by (simp add: chunk_step_def sample_window_37 sample_strips sample_length) (simp add: str_def)

lemma sample_loop:
  "page_loop 20 5 sample pn (0, 0, []) = Some (4,
     [\<lparr>chunk_id = 0, chunk_page = pn, chunk_text = str ''Sentence one.'', chunk_source = None\<rparr>,
      \<lparr>chunk_id = 1, chunk_page = pn, chunk_text = str ''one. Sentence two.'', chunk_source = None\<rparr>,
      \<lparr>chunk_id = 2, chunk_page = pn, chunk_text = str ''two. Sentence three'', chunk_source = None\<rparr>,
      \<lparr>chunk_id = 3, chunk_page = pn, chunk_text = str ''three.'', chunk_source = None\<rparr>])"
  by (simp add: page_loop.simps sample_length sample_step_0 sample_step_8 sample_step_22 sample_step_37)

lemma sample_chunks:
  "create_chunks [\<lparr>page_num = pn, page_text = sample\<rparr>] 20 5 = Some
     [\<lparr>chunk_id = 0, chunk_page = pn, chunk_text = str ''Sentence one.'', chunk_source = None\<rparr>,
      \<lparr>chunk_id = 1, chunk_page = pn, chunk_text = str ''one. Sentence two.'', chunk_source = None\<rparr>,
      \<lparr>chunk_id = 2, chunk_page = pn, chunk_text = str ''two. Sentence three'', chunk_source = None\<rparr>,
      \<lparr>chunk_id = 3, chunk_page = pn, chunk_text = str ''three.'', chunk_source = None\<rparr>]"
proof -
  have "sample \<noteq> []" by (simp add: sample_def str_def)
  then show ?thesis
    by (simp add: create_chunks_def chunk_page_data_def sample_clean sample_loop)
qed

lemma stuck_clean: "clean_text stuck = stuck"
  by (simp add: stuck_def str_def clean_text_eq remove_ctrl_def is_ctrl_def is_space_def py_strip_def)

lemma stuck_length: "int (length stuck) = 12"
  by (simp add: stuck_def str_def)

lemma stuck_window: "chunk_window 6 stuck 0 = (str ''aaaa.'', 5)"
  by (simp add: stuck_def str_def chunk_window_def py_slice_def rfind_def)

lemma stuck_step: "fst (chunk_step 6 5 stuck p (0, acc)) = 0"
  by (simp add: chunk_step_fst stuck_window stuck_length)

lemma stuck_loop: "page_loop 6 5 stuck p (0, acc) = None"
proof (cases "page_loop 6 5 stuck p (0, acc)")
  case None
  then show ?thesis .
next
  case (Some r)
  have "(6::int) = 6 \<and> (5::int) = 5 \<and> stuck = stuck \<longrightarrow> fst (0::int, acc) \<noteq> 0"
  proof (rule page_loop.raw_induct [where P = "\<lambda>S' ov' t' p' st' r'.
      S' = 6 \<and> ov' = 5 \<and> t' = stuck \<longrightarrow> fst st' \<noteq> 0", OF _ Some])
    fix f :: "int \<Rightarrow> int \<Rightarrow> pystr \<Rightarrow> int \<Rightarrow> int \<times> nat \<times> chunk list \<Rightarrow> (nat \<times> chunk list) option"
      and S' ov' t' p' st' r'
    assume ih: "\<And>S ov t p st y. f S ov t p st = Some y \<Longrightarrow>
      S = 6 \<and> ov = 5 \<and> t = stuck \<longrightarrow> fst st \<noteq> 0"
    assume eq: "(if fst st' < int (length t') then f S' ov' t' p' (chunk_step S' ov' t' p' st')
                 else Some (snd st')) = Some r'"
    show "S' = 6 \<and> ov' = 5 \<and> t' = stuck \<longrightarrow> fst st' \<noteq> 0"
    proof (intro impI notI)
      assume c: "S' = 6 \<and> ov' = 5 \<and> t' = stuck" and z: "fst st' = 0"
      from z have st': "st' = (0, snd st')" by (cases st') simp
      from eq c z have "f 6 5 stuck p' (chunk_step 6 5 stuck p' st') = Some r'"
        by (simp add: stuck_length)
      from ih [OF this] have "fst (chunk_step 6 5 stuck p' st') \<noteq> 0" by simp
      moreover have "fst (chunk_step 6 5 stuck p' st') = 0"
        by (subst st') (rule stuck_step)
      ultimately show False by simp
    qed
  qed
  then show ?thesis by simp
qed

lemma stuck_chunks: "create_chunks [\<lparr>page_num = 1, page_text = stuck\<rparr>] 6 5 = None"
proof -
  have "stuck \<noteq> []" by (simp add: stuck_def str_def)
  then show ?thesis
    by (simp add: create_chunks_def chunk_page_data_def stuck_clean stuck_loop)
qed

section \<open>Properties of main and save_chunks\<close>

lemma map_add_upt_nat: "map (\<lambda>i. n + i) [0..<k] = [n..<n + k]"
  by (induction k) simp_all

lemma chunk_id_reassign:
  "map chunk_id cs = [0..<length cs] \<Longrightarrow>
   map chunk_id (reassign all name cs) = [length all..<length all + length cs]"
proof -
  assume a: "map chunk_id cs = [0..<length cs]"
  have "map chunk_id (reassign all name cs) = map (\<lambda>i. length all + i) (map chunk_id cs)"
    by (simp add: reassign_def comp_def)
  with a show ?thesis by (simp add: map_add_upt_nat)
qed

lemma length_reassign: "length (reassign all name cs) = length cs"
  by (simp add: reassign_def)

lemma configured_terminates: "\<exists>cs. create_chunks pages CHUNK_SIZE CHUNK_OVERLAP = Some cs"
  by (rule create_chunks_terminates) (simp_all add: CHUNK_SIZE_def CHUNK_OVERLAP_def)

lemma main_loop_ids:
  "map chunk_id (fst acc) = [0..<length (fst acc)] \<Longrightarrow>
   \<exists>r. main_loop pdfs acc = Some r \<and> map chunk_id (fst r) = [0..<length (fst r)]"
proof (induction pdfs arbitrary: acc)
  case Nil
  then show ?case by simp
next
  case (Cons pdf pdfs)
  let ?pages = "extract_text (pdf_pages pdf)"
  from configured_terminates obtain cs where cs: "create_chunks ?pages CHUNK_SIZE CHUNK_OVERLAP = Some cs"
    by blast
  have ids: "map chunk_id cs = [0..<length cs]" using create_chunks_extends [OF cs] by simp
  let ?acc' = "(fst acc @ reassign (fst acc) (pdf_name pdf) cs, snd acc @ ?pages)"
  have "map chunk_id (fst ?acc') = [0..<length (fst acc)] @ [length (fst acc)..<length (fst acc) + length cs]"
    using Cons.prems chunk_id_reassign [OF ids] by simp
  also have "\<dots> = [0..<length (fst acc) + length cs]"
    by (metis le0 upt_add_eq_append)
  finally have "map chunk_id (fst ?acc') = [0..<length (fst ?acc')]"
    by (simp add: length_reassign)
  from Cons.IH [OF this] obtain r where "main_loop pdfs ?acc' = Some r"
    "map chunk_id (fst r) = [0..<length (fst r)]" by blast
  with cs show ?case by (simp add: Let_def)
qed

lemma main_chunks_ids:
  "\<exists>all. main_chunks pdfs = Some all \<and> map chunk_id all = [0..<length all]"
  using main_loop_ids [of "([], [])" pdfs] by (auto simp: main_chunks_def)

lemma main_chunks_two:
  assumes "create_chunks (extract_text (pdf_pages a)) CHUNK_SIZE CHUNK_OVERLAP = Some ca"
    and "create_chunks (extract_text (pdf_pages b)) CHUNK_SIZE CHUNK_OVERLAP = Some cb"
  shows "main_chunks [a, b] =
    Some (reassign [] (pdf_name a) ca @ reassign (reassign [] (pdf_name a) ca) (pdf_name b) cb)"
  using assms by (simp add: main_chunks_def Let_def)

lemma py_slice_nat: "py_slice xs (int u) (int v) = drop u (take v xs)"
proof -
  let ?n = "length xs"
  have lo: "min (int u) (int ?n) = int (min u ?n)" and hi: "min (int v) (int ?n) = int (min v ?n)"
    by (simp_all add: min_def)
  have "py_slice xs (int u) (int v) =
        take (nat (min (int v) (int ?n) - min (int u) (int ?n))) (drop (nat (min (int u) (int ?n))) xs)"
    by (simp add: py_slice_def Let_def)
  also have "\<dots> = take (min v ?n - min u ?n) (drop (min u ?n) xs)"
    unfolding lo hi by (simp add: nat_diff_distrib')
  also have "\<dots> = drop u (take v xs)"
    by (cases "u \<le> ?n"; cases "v \<le> ?n") (simp_all add: drop_take min_def)
  finally show ?thesis .
qed

lemma py_slice_batch:
  "py_slice xs (int i * int b) (min ((int i + 1) * int b) (int (length xs))) = batch xs b i"
proof -
  have 1: "int i * int b = int (i * b)" by simp
  have "(int i + 1) * int b = int ((i + 1) * b)" by (simp add: algebra_simps)
  then have 2: "min ((int i + 1) * int b) (int (length xs)) = int (min ((i + 1) * b) (length xs))"
    by (simp only: of_nat_min)
  have 3: "take (min k (length xs)) xs = take k xs" for k by (simp add: min_def)
  show ?thesis unfolding 1 2 py_slice_nat batch_def 3 ..
qed

lemma concat_batch: "concat (map (batch xs b) [0..<k]) = take (k * b) xs"
proof (induction k)
  case 0
  show ?case by simp
next
  case (Suc k)
  have "take (k * b) xs = take (k * b) (take (Suc k * b) xs)" by (simp add: min_def)
  then have "take (k * b) xs @ batch xs b k = take (Suc k * b) xs"
    unfolding batch_def by (simp only: Suc_eq_plus1 [symmetric] append_take_drop_id)
  with Suc show ?case by simp
qed

lemma length_batch: "length (batch xs b i) = min ((i + 1) * b) (length xs) - i * b"
  by (simp add: batch_def)

lemma ceil_div_bounds:
  assumes "0 < (b::nat)"
  shows "n \<le> (n + b - 1) div b * b" and "0 < n \<Longrightarrow> ((n + b - 1) div b - 1) * b < n"
proof -
  let ?q = "(n + b - 1) div b"
  have eq: "?q * b + (n + b - 1) mod b = n + b - 1" by simp
  have r: "(n + b - 1) mod b < b" using assms by simp
  from eq r show "n \<le> ?q * b" by linarith
  assume "0 < n"
  then have "0 < ?q" using assms by (simp add: div_greater_zero_iff)
  then have "(?q - 1) * b + b = ?q * b" by (simp add: diff_mult_distrib)
  with eq r show "(?q - 1) * b < n" by linarith
qed

lemma num_files_nat:
  "0 < b \<Longrightarrow> (int n + int b - 1) div int b = int ((n + b - 1) div b)"
proof -
  assume "0 < b"
  then have "int n + int b - 1 = int (n + b - 1)" by (simp add: of_nat_diff)
  then show ?thesis by (simp only: zdiv_int)
qed

lemma save_chunks_batches:
  assumes "0 < b"
  shows "save_chunks xs (int b) =
    Inr (map (batch xs b) [0..<(length xs + b - 1) div b], int ((length xs + b - 1) div b))"
  using assms
  by (simp add: save_chunks_def Let_def num_files_nat py_range_def comp_def py_slice_batch
      del: of_nat_add of_nat_mult)

section \<open>Claims about clean_text\<close>

text \<open>
  Claim C3 (blank lines collapsed to exactly one blank line). The code does not do this:
  the whitespace substitution runs before the blank-line substitution and has already
  turned every newline into a space, so the blank-line substitution, announced by the
  comment "Rimuovi righe vuote multiple", never matches. On the input
  \<open>"a\n\n\nb"\<close>, a text with two consecutive blank lines, the result is \<open>"a b"\<close>: no
  blank line is left.
\<close>

theorem clean_text_blank_lines_lost:
  "clean_text (str ''a\<newline>\<newline>\<newline>b'') = str ''a b''"
  by (simp add: str_def clean_text_eq remove_ctrl_def is_ctrl_def is_space_def py_strip_def)

text \<open>
  Claim C7 (idempotence): cleaning an already cleaned text changes nothing, for every
  input text.
\<close>

theorem clean_text_idempotent: "clean_text (clean_text t) = clean_text t"
  by (rule clean_text_idem)

text \<open>
  Claim C9: the output of \<open>clean_text\<close> contains no newline (code point 10), for every
  input; hence in every window \<open>text[a:b]\<close> of a cleaned text the backward search
  \<open>rfind('\n')\<close> of the chunker returns \<open>-1\<close>.
\<close>

theorem clean_text_no_newline:
  "10 \<notin> set (clean_text t) \<and> rfind (py_slice (clean_text t) a b) 10 = - 1"
proof
  show "10 \<notin> set (clean_text t)" by (rule no_newline_clean_text)
  then have "10 \<notin> set (py_slice (clean_text t) a b)"
    using set_py_slice [of "clean_text t" a b] by auto
  then show "rfind (py_slice (clean_text t) a b) 10 = - 1" by (rule rfind_absent)
qed

end
